theory Spec2Isabelle
  imports Main "HOL-Library.Sublist"
begin

section \<open>Python strings\<close>

text \<open>
  \<^verbatim>\<open>build_questions.py\<close> reads its input with \<^verbatim>\<open>read_text(encoding="utf-8")\<close>, so
  every string it handles is a sequence of Unicode code points.  A code point is a
  natural number here and a string is a list of them; \<open>U ''abc''\<close> writes an ASCII
  literal.
\<close>

type_synonym cp = nat
type_synonym ustr = "cp list"

definition U :: "string \<Rightarrow> ustr" where
  "U s = map of_char s"

text \<open>
  \<^verbatim>\<open>str.isspace\<close> for one code point, which is also the class \<^verbatim>\<open>\s\<close> of \<^verbatim>\<open>re\<close> on
  \<^verbatim>\<open>str\<close> patterns and the set \<^verbatim>\<open>str.strip()\<close> removes (Unicode 14.0, CPython 3.11).
\<close>

definition isspace :: "cp \<Rightarrow> bool" where
  "isspace c =
     (c \<in> {9, 10, 11, 12, 13, 28, 29, 30, 31, 32, 133, 160, 5760}
      \<or> (8192 \<le> c \<and> c \<le> 8202)
      \<or> c \<in> {8232, 8233, 8239, 8287, 12288})"

text \<open>
  The class \<^verbatim>\<open>\d\<close> is the Unicode category Nd; \<^verbatim>\<open>int()\<close> reads every such digit.
  Nd comes in runs of ten code points, the digits 0 to 9 of one script; the list holds
  the code point of each run's zero (Unicode 14.0, CPython 3.11).
\<close>

definition decimal_zeros :: "cp list" where
  "decimal_zeros =
     [48, 1632, 1776, 1984, 2406, 2534, 2662, 2790, 2918, 3046, 3174, 3302, 3430, 3558,
      3664, 3792, 3872, 4160, 4240, 6112, 6160, 6470, 6608, 6784, 6800, 6992, 7088, 7232,
      7248, 42528, 43216, 43264, 43472, 43504, 43600, 44016, 65296, 66720, 68912, 69734,
      69872, 69942, 70096, 70384, 70736, 70864, 71248, 71360, 71472, 71904, 72016, 72784,
      73040, 73120, 92768, 92864, 93008, 120782, 120792, 120802, 120812, 120822, 123200,
      123632, 125264, 130032]"

definition decimal_value :: "cp \<Rightarrow> nat option" where
  "decimal_value c =
     (case filter (\<lambda>z. z \<le> c \<and> c < z + 10) decimal_zeros of
        [] \<Rightarrow> None
      | z # _ \<Rightarrow> Some (c - z))"

definition isdecimal :: "cp \<Rightarrow> bool" where
  "isdecimal c = (decimal_value c \<noteq> None)"

text \<open>The exceptions the script can raise once it has read its input.\<close>

datatype py_error = TypeError | ValueError

text \<open>
  \<^verbatim>\<open>int(s)\<close> on a string of decimal digits (the only strings the script converts).
  \<open>int_of_digits\<close> is the value of the digits.  CPython 3.11 with its default
  \<^verbatim>\<open>sys.int_max_str_digits\<close> of 4300 raises \<^verbatim>\<open>ValueError\<close> when the string has more
  than 4300 digits, leading zeros counted.
\<close>

definition int_of_digits :: "ustr \<Rightarrow> int" where
  "int_of_digits s =
     foldl (\<lambda>a c. 10 * a + int (case decimal_value c of Some d \<Rightarrow> d | None \<Rightarrow> 0)) 0 s"

definition int_py :: "ustr \<Rightarrow> py_error + int" where
  "int_py s = (if 4300 < length s then Inl ValueError else Inr (int_of_digits s))"

text \<open>\<^verbatim>\<open>str(n)\<close> for an integer.\<close>

function str_nat :: "nat \<Rightarrow> ustr" where
  "str_nat n = (if n < 10 then [48 + n] else str_nat (n div 10) @ [48 + n mod 10])"
  by pat_completeness auto
termination
  by (relation "measure (\<lambda>n. n)") auto

definition str_int :: "int \<Rightarrow> ustr" where
  "str_int i = (if i < 0 then 45 # str_nat (nat (- i)) else str_nat (nat i))"

text \<open>\<^verbatim>\<open>s.strip()\<close>, and the test \<^verbatim>\<open>not s.strip()\<close> of a blank line.\<close>

definition strip :: "ustr \<Rightarrow> ustr" where
  "strip s = rev (dropWhile isspace (rev (dropWhile isspace s)))"

definition blank :: "ustr \<Rightarrow> bool" where
  "blank s = (strip s = [])"

definition nonblank :: "ustr \<Rightarrow> bool" where
  "nonblank s = (strip s \<noteq> [])"

text \<open>\<^verbatim>\<open>s.startswith(p)\<close>.\<close>

definition startswith :: "ustr \<Rightarrow> ustr \<Rightarrow> bool" where
  "startswith s p = (take (length p) s = p)"

text \<open>
  \<^verbatim>\<open>s.lower()\<close>, one code point at a time.  The script only asks whether the result
  starts with the ASCII word \<^verbatim>\<open>options\<close>, and the function is exact on every code
  point whose lower case begins with an ASCII letter: A to Z, U+0130 (which becomes
  \<^verbatim>\<open>i\<close> followed by U+0307) and U+212A (the Kelvin sign, \<^verbatim>\<open>k\<close>).  Python maps every
  other code point to itself or to other non-ASCII text; it stands for itself here.
\<close>

definition lower_cp :: "cp \<Rightarrow> ustr" where
  "lower_cp c =
     (if 65 \<le> c \<and> c \<le> 90 then [c + 32]
      else if c = 304 then [105, 775]
      else if c = 8490 then [107]
      else [c])"

definition lower :: "ustr \<Rightarrow> ustr" where
  "lower s = concat (map lower_cp s)"

text \<open>\<^verbatim>\<open>s.split(d)\<close> for a one-character separator, and \<^verbatim>\<open>sep.join(xs)\<close>.\<close>

fun split_on :: "cp \<Rightarrow> ustr \<Rightarrow> ustr list" where
  "split_on d [] = [[]]"
| "split_on d (c # s) =
     (if c = d then [] # split_on d s
      else (case split_on d s of [] \<Rightarrow> [[c]] | p # ps \<Rightarrow> (c # p) # ps))"

fun join :: "ustr \<Rightarrow> ustr list \<Rightarrow> ustr" where
  "join sep [] = []"
| "join sep [x] = x"
| "join sep (x # y # ys) = x @ sep @ join sep (y # ys)"

text \<open>
  \<^verbatim>\<open>s.splitlines()\<close>: a line ends at \<^verbatim>\<open>\n\<close>, \<^verbatim>\<open>\r\<close>, \<^verbatim>\<open>\r\n\<close>, \<^verbatim>\<open>\v\<close>, \<^verbatim>\<open>\f\<close>,
  U+001C to U+001E, U+0085, U+2028 or U+2029; the line ends are dropped and no empty
  last line is produced.  The first argument is the line read so far.
\<close>

definition linebreak :: "cp \<Rightarrow> bool" where
  "linebreak c = (c \<in> {10, 11, 12, 13, 28, 29, 30, 133, 8232, 8233})"

fun splitlines_from :: "ustr \<Rightarrow> ustr \<Rightarrow> ustr list" where
  "splitlines_from cur [] = (if cur = [] then [] else [cur])"
| "splitlines_from cur (c # s) =
     (if c = 13 \<and> s \<noteq> [] \<and> hd s = 10 then cur # splitlines_from [] (tl s)
      else if linebreak c then cur # splitlines_from [] s
      else splitlines_from (cur @ [c]) s)"

definition splitlines :: "ustr \<Rightarrow> ustr list" where
  "splitlines s = splitlines_from [] s"

section \<open>Regular expressions\<close>

text \<open>
  The script's three patterns are sequences of one-character classes, each taken once
  or under \<^verbatim>\<open>?\<close>, \<^verbatim>\<open>*\<close>, \<^verbatim>\<open>+\<close> or the lazy \<^verbatim>\<open>*?\<close>, with capturing groups and
  \<^verbatim>\<open>$\<close>.  \<open>re_match\<close> is the backtracking search of \<^verbatim>\<open>re.match\<close> on such a
  pattern: it is anchored at the start of the string (so a leading \<^verbatim>\<open>^\<close> adds
  nothing), a greedy item tries its longest run first and a lazy one its shortest, and
  the first alternative under which the rest of the pattern matches wins.  It returns
  the text of the groups, in order.  The third argument holds the groups closed so
  far, the fourth the text consumed since the last \<open>Open\<close>; \<open>try_each\<close> tries the
  alternatives of a repeated item one after the other.
\<close>

datatype item =
    Lit "cp \<Rightarrow> bool"
  | Opt "cp \<Rightarrow> bool"
  | Star "cp \<Rightarrow> bool"
  | Plus "cp \<Rightarrow> bool"
  | Lazy "cp \<Rightarrow> bool"
  | Open
  | Close
  | Eos

text \<open>
  The ways a starred class can take a prefix of the string, shortest first: each pair
  is the text taken and the text left.
\<close>

fun splits :: "(cp \<Rightarrow> bool) \<Rightarrow> ustr \<Rightarrow> (ustr \<times> ustr) list" where
  "splits p [] = [([], [])]"
| "splits p (c # s) =
     ([], c # s) # (if p c then map (\<lambda>(t, r). (c # t, r)) (splits p s) else [])"

text \<open>
  The alternatives of each repeated item, in the order the search tries them: the
  greedy ones longest first, the lazy one shortest first.
\<close>

definition alternatives :: "item \<Rightarrow> ustr \<Rightarrow> (ustr \<times> ustr) list" where
  "alternatives i s =
     (case i of
        Opt p \<Rightarrow> rev (take 2 (splits p s))
      | Star p \<Rightarrow> rev (splits p s)
      | Plus p \<Rightarrow> rev (tl (splits p s))
      | Lazy p \<Rightarrow> splits p s
      | _ \<Rightarrow> [])"

fun re_match :: "item list \<Rightarrow> ustr \<Rightarrow> ustr list \<Rightarrow> ustr \<Rightarrow> ustr list option"
  and try_each :: "item list \<Rightarrow> (ustr \<times> ustr) list \<Rightarrow> ustr list \<Rightarrow> ustr \<Rightarrow> ustr list option"
where
  "re_match [] s gs cur = Some gs"
| "re_match (Lit p # r) s gs cur =
     (case s of
        [] \<Rightarrow> None
      | c # s' \<Rightarrow> if p c then re_match r s' gs (cur @ [c]) else None)"
| "re_match (Opt p # r) s gs cur = try_each r (alternatives (Opt p) s) gs cur"
| "re_match (Star p # r) s gs cur = try_each r (alternatives (Star p) s) gs cur"
| "re_match (Plus p # r) s gs cur = try_each r (alternatives (Plus p) s) gs cur"
| "re_match (Lazy p # r) s gs cur = try_each r (alternatives (Lazy p) s) gs cur"
| "re_match (Open # r) s gs cur = re_match r s gs []"
| "re_match (Close # r) s gs cur = re_match r s (gs @ [cur]) []"
| "re_match (Eos # r) s gs cur =
     (if s = [] \<or> s = [10] then re_match r s gs cur else None)"
| "try_each r [] gs cur = None"
| "try_each r ((t, s) # alts) gs cur =
     (case re_match r s gs (cur @ t) of
        Some g \<Rightarrow> Some g
      | None \<Rightarrow> try_each r alts gs cur)"

text \<open>A literal character, as it is and under \<^verbatim>\<open>re.IGNORECASE\<close>.\<close>

definition chr :: "char \<Rightarrow> cp \<Rightarrow> bool" where
  "chr a c = (c = of_char a)"

text \<open>
  Under \<^verbatim>\<open>re.IGNORECASE\<close> a letter of the pattern matches the code points whose
  simple lower case is its own, and the long s (U+017F) matches \<^verbatim>\<open>s\<close>.  Among the
  letters of \<^verbatim>\<open>Correct Answer\<close> that adds U+017F and nothing else.
\<close>

definition chr_ci :: "char \<Rightarrow> cp \<Rightarrow> bool" where
  "chr_ci a c =
     (let l = (of_char a :: nat);
          l' = (if 65 \<le> l \<and> l \<le> 90 then l + 32 else l)
      in c = l' \<or> (97 \<le> l' \<and> l' \<le> 122 \<and> c + 32 = l') \<or> (l' = 115 \<and> c = 383))"

definition lits :: "string \<Rightarrow> item list" where
  "lits s = map (\<lambda>a. Lit (chr a)) s"

definition lits_ci :: "string \<Rightarrow> item list" where
  "lits_ci s = map (\<lambda>a. Lit (chr_ci a)) s"

text \<open>The dot: any code point but \<^verbatim>\<open>\n\<close>.\<close>

definition dot :: "cp \<Rightarrow> bool" where
  "dot c = (c \<noteq> 10)"

definition upper_AZ :: "cp \<Rightarrow> bool" where
  "upper_AZ c = (65 \<le> c \<and> c \<le> 90)"

text \<open>\<^verbatim>\<open>QUESTION_RE = re.compile(r'^Question\s+(\d+):')\<close>\<close>

definition QUESTION_RE :: "item list" where
  "QUESTION_RE = lits ''Question'' @ [Plus isspace, Open, Plus isdecimal, Close, Lit (chr CHR '':'')]"

text \<open>
  \<^verbatim>\<open>CORRECT_RE = re.compile(r'^\s*Correct\s+Answer[s]?\s*\(?.*?\)?:\s*(.+)$', re.IGNORECASE)\<close>
\<close>

definition CORRECT_RE :: "item list" where
  "CORRECT_RE =
     [Star isspace] @ lits_ci ''Correct'' @ [Plus isspace] @ lits_ci ''Answer'' @
     [Opt (chr_ci CHR ''s''), Star isspace, Opt (chr CHR ''(''), Lazy dot, Opt (chr CHR '')''),
      Lit (chr CHR '':''), Star isspace, Open, Plus dot, Close, Eos]"

text \<open>The pattern of an option line, \<^verbatim>\<open>r'^\s*([A-Z])\.\s*(.*)'\<close>.\<close>

definition OPTION_RE :: "item list" where
  "OPTION_RE =
     [Star isspace, Open, Lit upper_AZ, Close, Lit (chr CHR ''.''), Star isspace,
      Open, Star dot, Close]"

section \<open>The block parser\<close>

text \<open>
  The three matches \<^verbatim>\<open>parse_category\<close> makes on a line.  \<open>question_num\<close> is
  \<^verbatim>\<open>int(m.group(1))\<close> of a \<^verbatim>\<open>QUESTION_RE\<close> match: \<open>None\<close> when the line does not
  match, the exception when \<^verbatim>\<open>int\<close> raises, the number otherwise.  \<open>option_match\<close> is
  the pair \<^verbatim>\<open>(letter, text.strip())\<close> of an option line, and \<open>correct_match\<close> the list
  \<^verbatim>\<open>[p.strip() for p in part.split(",") if p.strip()]\<close> of a \<^verbatim>\<open>CORRECT_RE\<close> match,
  where \<^verbatim>\<open>part = m_corr.group(1).strip()\<close>.
\<close>

definition question_num :: "ustr \<Rightarrow> (py_error + int) option" where
  "question_num l =
     (case re_match QUESTION_RE l [] [] of
        Some (g # _) \<Rightarrow> Some (int_py g)
      | _ \<Rightarrow> None)"

definition option_match :: "ustr \<Rightarrow> (ustr \<times> ustr) option" where
  "option_match l =
     (case re_match OPTION_RE l [] [] of
        Some (letter # text # _) \<Rightarrow> Some (letter, strip text)
      | _ \<Rightarrow> None)"

definition letters_of :: "ustr \<Rightarrow> ustr list" where
  "letters_of part = map strip (filter nonblank (split_on 44 part))"

definition correct_match :: "ustr \<Rightarrow> ustr list option" where
  "correct_match l =
     (case re_match CORRECT_RE l [] [] of
        Some (g # _) \<Rightarrow> Some (letters_of (strip g))
      | _ \<Rightarrow> None)"

text \<open>The test \<^verbatim>\<open>lines[i].strip().lower().startswith("options")\<close>.\<close>

definition is_options_line :: "ustr \<Rightarrow> bool" where
  "is_options_line l = startswith (lower (strip l)) (U ''options'')"

text \<open>
  The dictionary \<^verbatim>\<open>parse_category\<close> appends for a block: the keys \<^verbatim>\<open>num\<close>,
  \<^verbatim>\<open>question\<close>, \<^verbatim>\<open>options\<close> and \<^verbatim>\<open>correct_letters\<close>.
\<close>

record parsed =
  q_num :: int
  q_question :: ustr
  q_options :: "(ustr \<times> ustr) list"
  q_correct_letters :: "ustr list"

text \<open>The warning of a block without its \<^verbatim>\<open>Options:\<close> line (the dash is U+2013).\<close>

definition warn_no_options :: "ustr \<Rightarrow> int \<Rightarrow> ustr" where
  "warn_no_options cat_name n =
     U ''[WARN] '' @ cat_name @ U '': Question '' @ str_int n @ U '' has no '' @ [39] @
     U ''Options:'' @ [39] @ U '' line '' @ [8211] @ U '' skipped.''"

text \<open>
  One way round the loop of \<^verbatim>\<open>parse_category\<close> from a header whose number is \<open>n\<close>,
  \<open>ls\<close> being the lines after the header: the lines it prints, what it appends to
  \<^verbatim>\<open>out\<close> and to \<^verbatim>\<open>skipped_missing_answer\<close>, and the lines from the index \<^verbatim>\<open>i\<close> on when
  it comes back to the test of the loop.  The inner loops that skip blank lines and read
  runs of non-blank lines are \<open>dropWhile\<close> and \<open>takeWhile\<close>.
\<close>

definition question_block ::
    "ustr \<Rightarrow> int \<Rightarrow> ustr list \<Rightarrow> ustr list \<times> parsed list \<times> int list \<times> ustr list" where
  "question_block cat_name n ls =
     (let ls1 = dropWhile blank ls;
          q_lines = map strip (takeWhile nonblank ls1);
          question = strip (join (U '' '') q_lines);
          ls2 = dropWhile blank (dropWhile nonblank ls1)
      in if ls2 = [] \<or> \<not> is_options_line (hd ls2)
         then ([warn_no_options cat_name n], [], [], ls2)
         else
           (let ls3 = tl ls2;
                opts = List.map_filter option_match (takeWhile nonblank ls3);
                ls4 = dropWhile blank (dropWhile nonblank ls3);
                q = \<lparr>q_num = n, q_question = question, q_options = opts,
                     q_correct_letters = []\<rparr>
            in if ls4 = [] then ([], [q], [n], ls4)
               else
                 (case correct_match (hd ls4) of
                    Some letters \<Rightarrow> ([], [q\<lparr>q_correct_letters := letters\<rparr>], [], tl ls4)
                  | None \<Rightarrow> ([], [q], [n], ls4))))"

text \<open>
  What \<^verbatim>\<open>parse_category\<close> has done when it ends: the lines it has printed, and the
  exception it raised or the lists \<^verbatim>\<open>out\<close> and \<^verbatim>\<open>skipped_missing_answer\<close> it returns,
  each in the order of the scan.  \<open>continued pr qs sk res\<close> is the result of a scan that
  prints \<open>pr\<close>, appends \<open>qs\<close> and \<open>sk\<close>, and goes on as \<open>res\<close>.
\<close>

type_synonym parse_result = "ustr list \<times> (py_error + parsed list \<times> int list)"

definition continued :: "ustr list \<Rightarrow> parsed list \<Rightarrow> int list \<Rightarrow> parse_result \<Rightarrow> parse_result" where
  "continued pr qs sk res =
     (case res of
        (pr', r) \<Rightarrow>
          (pr @ pr',
           case r of
             Inl e \<Rightarrow> Inl e
           | Inr (out, skipped) \<Rightarrow> Inr (qs @ out, sk @ skipped)))"

text \<open>
  The loop of \<^verbatim>\<open>parse_category\<close>, on the lines from the index \<^verbatim>\<open>i\<close> on.  A line that
  does not match \<^verbatim>\<open>QUESTION_RE\<close> is passed over; at a header, \<^verbatim>\<open>int\<close> raises or a
  block is read, and the loop goes on with the lines that are left.
\<close>

function parse_lines :: "ustr \<Rightarrow> ustr list \<Rightarrow> parse_result" where
  "parse_lines cat_name [] = ([], Inr ([], []))"
| "parse_lines cat_name (l # ls) =
     (case question_num l of
        None \<Rightarrow> parse_lines cat_name ls
      | Some (Inl e) \<Rightarrow> ([], Inl e)
      | Some (Inr n) \<Rightarrow>
          (case question_block cat_name n ls of
             (pr, qs, sk, ls') \<Rightarrow> continued pr qs sk (parse_lines cat_name ls')))"
  by pat_completeness auto
termination
proof -
  have len: "length ls' \<le> length ls"
    if "question_block c n ls = (pr, qs, sk, ls')" for c n ls pr qs sk ls'
  proof -
    define ls2 where "ls2 = dropWhile blank (dropWhile nonblank (dropWhile blank ls))"
    define ls4 where "ls4 = dropWhile blank (dropWhile nonblank (tl ls2))"
    have 1: "length ls2 \<le> length ls"
      unfolding ls2_def by (metis length_dropWhile_le le_trans)
    have 2: "length ls4 \<le> length ls2"
      unfolding ls4_def by (metis length_dropWhile_le le_trans length_tl diff_le_self)
    have "ls' = ls2 \<or> ls' = ls4 \<or> ls' = tl ls4"
      using that unfolding question_block_def Let_def ls2_def [symmetric] ls4_def [symmetric]
      by (auto split: if_splits option.splits)
    with 1 2 show ?thesis by auto
  qed
  show ?thesis
    by (relation "measure (\<lambda>(c, ls). length ls)") (auto dest: len [OF sym])
qed

text \<open>\<^verbatim>\<open>parse_category(lines, cat_name)\<close>.\<close>

definition parse_category :: "ustr list \<Rightarrow> ustr \<Rightarrow> parse_result" where
  "parse_category lines cat_name = parse_lines cat_name lines"

text \<open>
  The lines from the index \<^verbatim>\<open>i\<close> on, each time \<^verbatim>\<open>parse_category\<close> comes to the test of
  its loop: the whole list first, the empty list last unless \<^verbatim>\<open>int\<close> raises.
\<close>

function loop_states :: "ustr \<Rightarrow> ustr list \<Rightarrow> ustr list list" where
  "loop_states cat_name [] = [[]]"
| "loop_states cat_name (l # ls) =
     (l # ls) #
     (case question_num l of
        None \<Rightarrow> loop_states cat_name ls
      | Some (Inl e) \<Rightarrow> []
      | Some (Inr n) \<Rightarrow>
          (case question_block cat_name n ls of
             (pr, qs, sk, ls') \<Rightarrow> loop_states cat_name ls'))"
  by pat_completeness auto
termination
proof -
  have len: "length ls' \<le> length ls"
    if "question_block c n ls = (pr, qs, sk, ls')" for c n ls pr qs sk ls'
  proof -
    define ls2 where "ls2 = dropWhile blank (dropWhile nonblank (dropWhile blank ls))"
    define ls4 where "ls4 = dropWhile blank (dropWhile nonblank (tl ls2))"
    have 1: "length ls2 \<le> length ls"
      unfolding ls2_def by (metis length_dropWhile_le le_trans)
    have 2: "length ls4 \<le> length ls2"
      unfolding ls4_def by (metis length_dropWhile_le le_trans length_tl diff_le_self)
    have "ls' = ls2 \<or> ls' = ls4 \<or> ls' = tl ls4"
      using that unfolding question_block_def Let_def ls2_def [symmetric] ls4_def [symmetric]
      by (auto split: if_splits option.splits)
    with 1 2 show ?thesis by auto
  qed
  show ?thesis
    by (relation "measure (\<lambda>(c, ls). length ls)") (auto dest: len [OF sym])
qed

section \<open>The main routine\<close>

text \<open>
  The category blocks.  \<open>cat_indices\<close> is the list of the same name with the length
  of the file appended, and \<open>segments\<close> pairs each header line with the slice
  \<^verbatim>\<open>raw_lines[start + 1:end]\<close> under it, for \<^verbatim>\<open>start, end\<close> running through
  \<^verbatim>\<open>zip(cat_indices[:-1], cat_indices[1:])\<close>.
\<close>

definition is_category_line :: "ustr \<Rightarrow> bool" where
  "is_category_line l = startswith l (U ''CATEGORY:'')"

definition cat_indices :: "ustr list \<Rightarrow> nat list" where
  "cat_indices raw_lines =
     filter (\<lambda>i. is_category_line (raw_lines ! i)) [0..<length raw_lines] @ [length raw_lines]"

definition segments :: "ustr list \<Rightarrow> (ustr \<times> ustr list) list" where
  "segments raw_lines =
     map (\<lambda>(start, end). (raw_lines ! start, take (end - (start + 1)) (drop (start + 1) raw_lines)))
       (zip (butlast (cat_indices raw_lines)) (tl (cat_indices raw_lines)))"

text \<open>
  \<^verbatim>\<open>header.split(":", 1)[1].strip()\<close>.  A header starts with \<^verbatim>\<open>CATEGORY:\<close>, so the
  split always has its second part: the text after the first colon.
\<close>

definition category_name :: "ustr \<Rightarrow> ustr" where
  "category_name header = strip (tl (dropWhile (\<lambda>c. c \<noteq> 58) header))"

text \<open>
  The first loop of \<^verbatim>\<open>main\<close>: the lines printed, and the exception that ended the run
  or the dictionaries \<^verbatim>\<open>categories\<close> and \<^verbatim>\<open>skipped_by_cat\<close>.  An assignment to a key
  that is already there replaces its value.
\<close>

type_synonym tables = "(ustr \<rightharpoonup> parsed list) \<times> (ustr \<rightharpoonup> int list)"

fun load_categories :: "(ustr \<times> ustr list) list \<Rightarrow> tables \<Rightarrow> ustr list \<times> (py_error + tables)" where
  "load_categories [] tbl = ([], Inr tbl)"
| "load_categories ((header, body) # rest) (categories, skipped_by_cat) =
     (let name = category_name header
      in case parse_category body name of
           (w, Inl e) \<Rightarrow> (w, Inl e)
         | (w, Inr (questions, skipped)) \<Rightarrow>
             (case load_categories rest
                     (categories(name \<mapsto> questions), skipped_by_cat(name \<mapsto> skipped)) of
                (pr, res) \<Rightarrow> (w @ pr, res)))"

text \<open>The dictionary \<^verbatim>\<open>mapping\<close>, in the order it is written.\<close>

definition mapping :: "(ustr \<times> ustr) list" where
  "mapping =
     [(U ''CSA EXAM QUESTIONS'', U ''csa''),
      (U ''SKILLCERT QUESTIONS'', U ''skillcert''),
      (U ''YOUTUBE DUMPS'', U ''youtube''),
      (U ''OTHER SOURCES 1 QUESTIONS'', U ''other'')]"

text \<open>
  \<^verbatim>\<open>ord(letter)\<close> raises \<^verbatim>\<open>TypeError\<close> unless the string has exactly one character.
  \<open>indices_of\<close> is the comprehension \<^verbatim>\<open>[ord(letter) - ord("A") for letter in letters]\<close>.
\<close>

definition ord_py :: "ustr \<Rightarrow> py_error + int" where
  "ord_py s =
     (case s of
        [] \<Rightarrow> Inl TypeError
      | c # r \<Rightarrow> if r = [] then Inr (int c) else Inl TypeError)"

fun indices_of :: "ustr list \<Rightarrow> py_error + int list" where
  "indices_of [] = Inr []"
| "indices_of (letter # letters) =
     (case ord_py letter of
        Inl e \<Rightarrow> Inl e
      | Inr n \<Rightarrow>
          (case indices_of letters of
             Inl e \<Rightarrow> Inl e
           | Inr ns \<Rightarrow> Inr ((n - 65) # ns)))"

text \<open>
  The value of \<^verbatim>\<open>correct\<close>: \<^verbatim>\<open>indices[0] if len(indices) == 1 else indices\<close>, an
  integer or a list of integers.
\<close>

datatype correct = Single int | Several "int list"

definition correct_of :: "int list \<Rightarrow> correct" where
  "correct_of indices = (if length indices = 1 then Single (hd indices) else Several indices)"

text \<open>
  An entry of \<^verbatim>\<open>js_questions\<close>: the keys \<^verbatim>\<open>id\<close>, \<^verbatim>\<open>question\<close>, \<^verbatim>\<open>options\<close> and
  \<^verbatim>\<open>correct\<close>.
\<close>

record js_entry =
  js_id :: int
  js_question :: ustr
  js_options :: "ustr list"
  js_correct :: correct

text \<open>
  The loop over \<^verbatim>\<open>qlist\<close>: it returns \<^verbatim>\<open>js_questions\<close> and
  \<^verbatim>\<open>missing_answer_count\<close>, or the exception of the first question whose letters
  \<^verbatim>\<open>ord\<close> refuses.
\<close>

fun js_questions_of :: "parsed list \<Rightarrow> py_error + (js_entry list \<times> nat)" where
  "js_questions_of [] = Inr ([], 0)"
| "js_questions_of (q # qlist) =
     (let options = map snd (q_options q)
      in if q_correct_letters q = [] then
           (case js_questions_of qlist of
              Inl e \<Rightarrow> Inl e
            | Inr (js, missing) \<Rightarrow> Inr (js, Suc missing))
         else
           (case indices_of (q_correct_letters q) of
              Inl e \<Rightarrow> Inl e
            | Inr indices \<Rightarrow>
                (case js_questions_of qlist of
                   Inl e \<Rightarrow> Inl e
                 | Inr (js, missing) \<Rightarrow>
                     Inr (\<lparr>js_id = q_num q, js_question = q_question q, js_options = options,
                           js_correct = correct_of indices\<rparr> # js, missing))))"

text \<open>The lines the second loop prints for one category.\<close>

definition summary_line :: "ustr \<Rightarrow> ustr \<Rightarrow> nat \<Rightarrow> nat \<Rightarrow> ustr" where
  "summary_line cat_name key included missing =
     cat_name @ U '' -> key '' @ [39] @ key @ [39] @ U '': '' @ str_int (int included) @
     U '' included, '' @ str_int (int missing) @
     U '' skipped (missing/invalid Correct Answer)''"

definition skipped_lines :: "ustr \<Rightarrow> int list \<Rightarrow> ustr list" where
  "skipped_lines cat_name skipped =
     (if skipped = [] then []
      else [U ''  Questions in '' @ [39] @ cat_name @ [39] @
              U '' with no recognizable Correct Answer line:'',
            U ''    '' @ join (U '', '') (map str_int skipped)])"

text \<open>
  The second loop of \<^verbatim>\<open>main\<close>, over \<^verbatim>\<open>mapping.items()\<close>: the lines printed, and
  \<^verbatim>\<open>js_obj\<close> with its keys in the order they were set, or the exception that ended
  the run.
\<close>

type_synonym js_obj = "(ustr \<times> js_entry list) list"

fun build_js :: "(ustr \<times> ustr) list \<Rightarrow> (ustr \<rightharpoonup> parsed list) \<Rightarrow> (ustr \<rightharpoonup> int list) \<Rightarrow>
    ustr list \<times> (py_error + js_obj)" where
  "build_js [] categories skipped_by_cat = ([], Inr [])"
| "build_js ((cat_name, key) # rest) categories skipped_by_cat =
     (let qlist = (case categories cat_name of Some qs \<Rightarrow> qs | None \<Rightarrow> [])
      in case js_questions_of qlist of
           Inl e \<Rightarrow> ([], Inl e)
         | Inr (js_questions, missing) \<Rightarrow>
             (let pr = summary_line cat_name key (length js_questions) missing
                          # skipped_lines cat_name
                              (case skipped_by_cat cat_name of Some sk \<Rightarrow> sk | None \<Rightarrow> [])
              in case build_js rest categories skipped_by_cat of
                   (pr', res) \<Rightarrow>
                     (pr @ pr',
                      case res of Inl e \<Rightarrow> Inl e | Inr obj \<Rightarrow> Inr ((key, js_questions) # obj))))"

text \<open>
  \<^verbatim>\<open>main\<close> up to the point where it opens the output file: the lines printed and
  the object handed to \<^verbatim>\<open>json.dump\<close>, or the exception that ended the run.
  \<open>main_lines\<close> starts from \<^verbatim>\<open>raw_lines\<close>, \<open>main_text\<close> from the text of the input
  file.
\<close>

definition main_lines :: "ustr list \<Rightarrow> ustr list \<times> (py_error + js_obj)" where
  "main_lines raw_lines =
     (case load_categories (segments raw_lines) (Map.empty, Map.empty) of
        (pr, Inl e) \<Rightarrow> (pr, Inl e)
      | (pr, Inr (categories, skipped_by_cat)) \<Rightarrow>
          (case build_js mapping categories skipped_by_cat of
             (pr', res) \<Rightarrow> (pr @ pr', res)))"

definition main_text :: "ustr \<Rightarrow> ustr list \<times> (py_error + js_obj)" where
  "main_text text = main_lines (splitlines text)"

section \<open>The indices of a record\<close>



section \<open>Sample inputs\<close>

text \<open>
  The input of the round-trip scenario, one whose answer line names two letters without
  a comma, and one whose answer line names a letter past the last option.
\<close>

definition roundtrip_input :: ustr where
  "roundtrip_input =
     U ''CATEGORY: CSA EXAM QUESTIONS'' @ [10] @
     U ''Question 1:'' @ [10] @
     U ''What is 2+2?'' @ [10] @
     [10] @
     U ''Options:'' @ [10] @
     U ''A. 3'' @ [10] @
     U ''B. 4'' @ [10] @
     U ''C. 5'' @ [10] @
     [10] @
     U ''Correct Answer: B''"

definition two_letter_input :: ustr where
  "two_letter_input =
     U ''CATEGORY: CSA EXAM QUESTIONS'' @ [10] @
     U ''Question 1:'' @ [10] @
     U ''What is 2+2?'' @ [10] @
     [10] @
     U ''Options:'' @ [10] @
     U ''A. 3'' @ [10] @
     U ''B. 4'' @ [10] @
     [10] @
     U ''Correct Answer: AB''"


section \<open>Lines and matches\<close>


lemma map_filter_none:
  "list_all (\<lambda>l. f l = None) ls \<Longrightarrow> List.map_filter f ls = []"
  by (induction ls) (simp_all add: List.map_filter_simps)

lemma dropWhile_all: "list_all P xs \<Longrightarrow> dropWhile P (xs @ ys) = dropWhile P ys"
  by (induction xs) auto

lemma takeWhile_all: "list_all P xs \<Longrightarrow> takeWhile P (xs @ ys) = xs @ takeWhile P ys"
  by (induction xs) auto

lemma lower_cp_nonempty: "lower_cp c \<noteq> []"
  by (simp add: lower_cp_def)

lemma lower_Nil: "lower s = [] \<Longrightarrow> s = []"
  by (cases s) (simp_all add: lower_def lower_cp_nonempty)

lemma options_line_nonblank: "is_options_line l \<Longrightarrow> nonblank l"
proof -
  assume "is_options_line l"
  then have "take (length (U ''options'')) (lower (strip l)) = U ''options''"
    by (simp add: is_options_line_def startswith_def)
  moreover have "U ''options'' \<noteq> []"
    by (simp add: U_def)
  ultimately have "lower (strip l) \<noteq> []"
    by auto
  then have "strip l \<noteq> []"
    by (auto simp: lower_def)
  then show ?thesis by (simp add: nonblank_def)
qed






section \<open>One block at the head of the scan\<close>

lemma skip_blank:
  assumes "list_all blank bs" and "rest = [] \<or> nonblank (hd rest)"
  shows "dropWhile blank (bs @ rest) = rest"
proof (cases rest)
  case Nil
  from assms(1) have "dropWhile blank bs = []"
    by (simp only: dropWhile_eq_Nil_conv list_all_iff)
  with Nil show ?thesis by (simp only: append_Nil2)
next
  case (Cons r rs)
  with assms(2) have "\<not> blank r" by (simp add: nonblank_def blank_def)
  with Cons show ?thesis
    by (simp only: dropWhile_all [OF assms(1)] dropWhile.simps if_False)
qed

lemma read_run:
  assumes "list_all nonblank ps" and "rest = [] \<or> blank (hd rest)"
  shows "takeWhile nonblank (ps @ rest) = ps" and "dropWhile nonblank (ps @ rest) = rest"
proof -
  have "takeWhile nonblank rest = [] \<and> dropWhile nonblank rest = rest"
  proof (cases rest)
    case Nil
    then show ?thesis by simp
  next
    case (Cons r rs)
    with assms(2) have "\<not> nonblank r" by (simp add: nonblank_def blank_def)
    with Cons show ?thesis by simp
  qed
  then show "takeWhile nonblank (ps @ rest) = ps" and "dropWhile nonblank (ps @ rest) = rest"
    by (simp_all only: takeWhile_all [OF assms(1)] dropWhile_all [OF assms(1)] append_Nil2)
qed



lemma block_unanswered:
  assumes b1: "list_all blank b1" and pr: "list_all nonblank prompt" "prompt \<noteq> []"
    and b2: "list_all blank b2" "b2 \<noteq> []"
    and m: "is_options_line m"
    and ol: "list_all nonblank opt_lines"
    and b3: "list_all blank b3"
    and tail: "rest = [] \<or> (b3 \<noteq> [] \<and> nonblank (hd rest) \<and> correct_match (hd rest) = None)"
  shows "question_block cat_name n (b1 @ prompt @ b2 @ m # opt_lines @ b3 @ rest) =
           ([],
            [\<lparr>q_num = n, q_question = strip (join (U '' '') (map strip prompt)),
              q_options = List.map_filter option_match opt_lines, q_correct_letters = []\<rparr>],
            [n], rest)"
proof -
  let ?t2 = "m # opt_lines @ b3 @ rest"
  have nm: "nonblank m" using m by (rule options_line_nonblank)
  have 1: "dropWhile blank (b1 @ prompt @ b2 @ ?t2) = prompt @ b2 @ ?t2"
    using skip_blank [OF b1, of "prompt @ b2 @ ?t2"] pr by (cases prompt) auto
  have e: "b2 @ ?t2 = [] \<or> blank (hd (b2 @ ?t2))"
    using b2 by (cases b2) auto
  have 2: "takeWhile nonblank (prompt @ b2 @ ?t2) = prompt"
    "dropWhile nonblank (prompt @ b2 @ ?t2) = b2 @ ?t2"
    using read_run [OF pr(1) e] by auto
  have 3: "dropWhile blank (b2 @ ?t2) = ?t2"
    using skip_blank [OF b2(1), of ?t2] nm by simp
  have e3: "b3 @ rest = [] \<or> blank (hd (b3 @ rest))"
    using b3 tail by (cases b3) auto
  have 4: "takeWhile nonblank (opt_lines @ b3 @ rest) = opt_lines"
    "dropWhile nonblank (opt_lines @ b3 @ rest) = b3 @ rest"
    using read_run [OF ol e3] by auto
  have 5: "dropWhile blank (b3 @ rest) = rest"
    using skip_blank [OF b3, of rest] tail by auto
  have 6: "rest = [] \<or> correct_match (hd rest) = None"
    using tail by auto
  show ?thesis
    unfolding question_block_def
    apply (simp only: m 1 2 3 4 5 Let_def option.case list.sel list.distinct
        simp_thms if_True if_False)
    using 6 apply (cases "rest = []")
     apply (simp_all only: simp_thms if_True if_False option.case)
    done
qed

section \<open>The scan\<close>

lemma parse_lines_header:
  "question_num hdr = Some (Inr n) \<Longrightarrow> question_block cat_name n ls = (pr, qs, sk, ls') \<Longrightarrow>
   parse_lines cat_name (hdr # ls) = continued pr qs sk (parse_lines cat_name ls')"
  by simp

lemma continued_Nil: "continued [] [] [] res = res"
  by (cases res) (auto simp: continued_def split: sum.splits)

lemma continued_continued:
  "continued pr qs sk (continued pr' qs' sk' res) = continued (pr @ pr') (qs @ qs') (sk @ sk') res"
  by (cases res) (auto simp: continued_def split: sum.splits)

lemma loop_state_result:
  "xs \<in> set (loop_states cat_name ls) \<Longrightarrow>
   \<exists>pr0 out0 sk0. parse_lines cat_name ls = continued pr0 out0 sk0 (parse_lines cat_name xs)"
proof (induction cat_name ls rule: loop_states.induct)
  case (1 cat_name)
  then have "xs = []" by simp
  then show ?case using continued_Nil by metis
next
  case (2 cat_name l ls)
  show ?case
  proof (cases "xs = l # ls")
    case True
    then show ?thesis using continued_Nil by metis
  next
    case False
    show ?thesis
    proof (cases "question_num l")
      case None
      with 2 False show ?thesis by simp
    next
      case (Some r)
      show ?thesis
      proof (cases r)
        case (Inl e)
        with 2(3) Some False show ?thesis by simp
      next
        case (Inr n)
        obtain pr qs sk ls' where b: "question_block cat_name n ls = (pr, qs, sk, ls')"
          by (cases "question_block cat_name n ls") auto
        from 2(3) False Some Inr b have "xs \<in> set (loop_states cat_name ls')" by simp
        then obtain pr0 out0 sk0
          where "parse_lines cat_name ls' = continued pr0 out0 sk0 (parse_lines cat_name xs)"
          using 2(2) [OF Some Inr b [symmetric] refl refl] by blast
        then have "parse_lines cat_name (l # ls) =
            continued (pr @ pr0) (qs @ out0) (sk @ sk0) (parse_lines cat_name xs)"
          using Some Inr b by (simp add: continued_continued)
        then show ?thesis by blast
      qed
    qed
  qed
qed

section \<open>Category blocks\<close>

lemma upt_0_Suc: "[0..<Suc n] = 0 # map Suc [0..<n]"
  by (simp add: upt_conv_Cons map_Suc_upt del: upt_Suc)

lemma cat_indices_Nil: "cat_indices [] = [0]"
  by (simp add: cat_indices_def)

lemma cat_indices_Cons:
  "cat_indices (l # ls) = (if is_category_line l then [0] else []) @ map Suc (cat_indices ls)"
  unfolding cat_indices_def
  by (simp add: upt_0_Suc filter_map comp_def del: upt_Suc)

lemma cat_indices_nonempty: "cat_indices ls \<noteq> []"
  by (simp add: cat_indices_def)

lemma take_first_header:
  "take (hd (cat_indices ls)) ls = takeWhile (\<lambda>l. \<not> is_category_line l) ls"
proof (induction ls)
  case Nil
  show ?case by simp
next
  case (Cons l ls)
  then show ?case
    using cat_indices_nonempty [of ls]
    by (cases "cat_indices ls") (simp_all add: cat_indices_Cons)
qed

lemma segments_Nil: "segments [] = []"
  by (simp add: segments_def cat_indices_Nil)

lemma segments_shift:
  "map (\<lambda>(start, end). ((l # ls) ! start, take (end - (start + 1)) (drop (start + 1) (l # ls))))
     (zip (butlast (map Suc ci)) (tl (map Suc ci))) =
   map (\<lambda>(start, end). (ls ! start, take (end - (start + 1)) (drop (start + 1) ls)))
     (zip (butlast ci) (tl ci))"
  by (simp add: map_butlast [symmetric] map_tl [symmetric] zip_map_map split_def del: map_butlast map_tl)

lemma segments_Cons:
  "segments (l # ls) =
     (if is_category_line l then [(l, takeWhile (\<lambda>x. \<not> is_category_line x) ls)] else [])
     @ segments ls"
proof (cases "is_category_line l")
  case False
  then show ?thesis
    using segments_shift [of l ls "cat_indices ls"]
    by (simp add: segments_def cat_indices_Cons)
next
  case True
  obtain c cs where ci: "cat_indices ls = c # cs"
    using cat_indices_nonempty [of ls] by (cases "cat_indices ls") auto
  have t: "take c ls = takeWhile (\<lambda>x. \<not> is_category_line x) ls"
    using take_first_header [of ls] by (simp add: ci)
  have "segments (l # ls) =
      (l, take c ls) #
      map (\<lambda>(start, end). ((l # ls) ! start, take (end - (start + 1)) (drop (start + 1) (l # ls))))
        (zip (butlast (map Suc (c # cs))) (tl (map Suc (c # cs))))"
    using True by (simp add: segments_def cat_indices_Cons ci)
  also have "\<dots> = (l, take c ls) # segments ls"
    unfolding segments_shift by (simp add: segments_def ci)
  finally show ?thesis using True t by simp
qed

lemma takeWhile_until:
  "ys = [] \<or> \<not> P (hd ys) \<Longrightarrow> takeWhile P (xs @ ys) = takeWhile P xs"
  by (induction xs) (auto simp: takeWhile_eq_Nil_iff)

lemma segments_append:
  "ys = [] \<or> is_category_line (hd ys) \<Longrightarrow> segments (xs @ ys) = segments xs @ segments ys"
proof (induction xs)
  case Nil
  show ?case by (simp add: segments_Nil)
next
  case (Cons x xs)
  have "takeWhile (\<lambda>l. \<not> is_category_line l) (xs @ ys) = takeWhile (\<lambda>l. \<not> is_category_line l) xs"
    using Cons.prems by (intro takeWhile_until) simp
  with Cons show ?case by (simp add: segments_Cons)
qed

lemma segments_no_header:
  "list_all (\<lambda>l. \<not> is_category_line l) ls \<Longrightarrow> segments ls = []"
  by (induction ls) (simp_all add: segments_Nil segments_Cons)

lemma segments_block:
  assumes "is_category_line h" and "list_all (\<lambda>l. \<not> is_category_line l) body"
    and "post = [] \<or> is_category_line (hd post)"
  shows "segments (pre @ h # body @ post) = segments pre @ (h, body) # segments post"
proof -
  have t: "takeWhile (\<lambda>l. \<not> is_category_line l) (body @ post) = body"
    using takeWhile_until [of post "\<lambda>l. \<not> is_category_line l" body] assms(2,3)
    by (simp add: list_all_iff)
  have "segments (h # body @ post) = (h, body) # segments post"
    using assms by (simp add: segments_Cons t segments_append segments_no_header)
  moreover have "segments (pre @ h # body @ post) = segments pre @ segments (h # body @ post)"
    using assms(1) by (intro segments_append) simp
  ultimately show ?thesis by simp
qed

lemma segments_headers:
  "(h, b) \<in> set (segments ls) \<Longrightarrow> h \<in> set ls \<and> is_category_line h"
  by (induction ls) (auto simp: segments_Nil segments_Cons split: if_splits)

section \<open>The category tables\<close>

lemma load_categories_append:
  "load_categories (xs @ ys) tbl =
     (case load_categories xs tbl of
        (pr, Inl e) \<Rightarrow> (pr, Inl e)
      | (pr, Inr tbl') \<Rightarrow> (case load_categories ys tbl' of (pr', res) \<Rightarrow> (pr @ pr', res)))"
proof (induction xs arbitrary: tbl)
  case Nil
  show ?case by (cases "load_categories ys tbl") simp
next
  case (Cons x xs)
  obtain h b where x: "x = (h, b)" by (cases x)
  obtain cats skc where tbl: "tbl = (cats, skc)" by (cases tbl)
  show ?case
    unfolding x tbl
    by (simp add: Cons.IH Let_def split: prod.splits sum.splits)
qed

lemma load_categories_other:
  "load_categories segs (cats, skc) = (pr, Inr (cats', skc')) \<Longrightarrow>
   list_all (\<lambda>(h, b). category_name h \<noteq> name) segs \<Longrightarrow>
   cats' name = cats name \<and> skc' name = skc name"
proof (induction segs arbitrary: cats skc pr)
  case Nil
  then show ?case by simp
next
  case (Cons x segs)
  obtain h b where x: "x = (h, b)" by (cases x)
  from Cons.prems(1) obtain w qs sk pr1
    where p: "parse_category b (category_name h) = (w, Inr (qs, sk))"
      and r: "load_categories segs (cats(category_name h \<mapsto> qs), skc(category_name h \<mapsto> sk)) =
                (pr1, Inr (cats', skc'))"
    unfolding x by (auto simp: Let_def split: prod.splits sum.splits)
  from Cons.prems(2) have n: "category_name h \<noteq> name" and l: "list_all (\<lambda>(h, b). category_name h \<noteq> name) segs"
    unfolding x by simp_all
  from Cons.IH [OF r l] n show ?case by simp
qed

lemma load_categories_last:
  assumes "load_categories (before @ (h, b) # after) tbl = (pr, Inr (cats', skc'))"
    and "list_all (\<lambda>(h', b'). category_name h' \<noteq> category_name h) after"
  shows "\<exists>w qs sk. parse_category b (category_name h) = (w, Inr (qs, sk))
           \<and> cats' (category_name h) = Some qs \<and> skc' (category_name h) = Some sk"
proof -
  from assms(1) obtain pr0 tbl0 pr1
    where "load_categories ((h, b) # after) tbl0 = (pr1, Inr (cats', skc'))"
    by (auto simp: load_categories_append split: prod.splits sum.splits)
  moreover obtain cats0 skc0 where "tbl0 = (cats0, skc0)" by (cases tbl0)
  ultimately obtain w qs sk pr2
    where p: "parse_category b (category_name h) = (w, Inr (qs, sk))"
      and r: "load_categories after (cats0(category_name h \<mapsto> qs), skc0(category_name h \<mapsto> sk)) =
                (pr2, Inr (cats', skc'))"
    by (auto simp: Let_def split: prod.splits sum.splits)
  from load_categories_other [OF r assms(2)] p show ?thesis by simp
qed

section \<open>The output object\<close>

lemma build_js_keys:
  "build_js mp cats skc = (pr, Inr obj) \<Longrightarrow> map fst obj = map snd mp"
proof (induction mp arbitrary: pr obj)
  case Nil
  then show ?case by simp
next
  case (Cons x mp)
  obtain name key where x: "x = (name, key)" by (cases x)
  from Cons.prems obtain js m pr1 obj1
    where "build_js mp cats skc = (pr1, Inr obj1)" and "obj = (key, js) # obj1"
    unfolding x by (auto simp: Let_def split: prod.splits sum.splits)
  with Cons.IH show ?case unfolding x by simp
qed

lemma build_js_entry:
  "build_js mp cats skc = (pr, Inr obj) \<Longrightarrow> (name, key) \<in> set mp \<Longrightarrow>
   \<exists>js m. js_questions_of (case cats name of Some qs \<Rightarrow> qs | None \<Rightarrow> []) = Inr (js, m)
     \<and> (key, js) \<in> set obj
     \<and> sublist (summary_line name key (length js) m
                 # skipped_lines name (case skc name of Some sk \<Rightarrow> sk | None \<Rightarrow> [])) pr"
proof (induction mp arbitrary: pr obj)
  case Nil
  then show ?case by simp
next
  case (Cons x mp)
  obtain name' key' where x: "x = (name', key')" by (cases x)
  let ?q = "case cats name' of Some qs \<Rightarrow> qs | None \<Rightarrow> []"
  let ?s = "case skc name' of Some sk \<Rightarrow> sk | None \<Rightarrow> []"
  from Cons.prems(1) obtain js m pr1 obj1
    where j: "js_questions_of ?q = Inr (js, m)"
      and r: "build_js mp cats skc = (pr1, Inr obj1)"
      and o: "obj = (key', js) # obj1"
      and p: "pr = (summary_line name' key' (length js) m # skipped_lines name' ?s) @ pr1"
    unfolding x by (auto simp: Let_def split: prod.splits sum.splits)
  show ?case
  proof (cases "(name, key) = (name', key')")
    case True
    have "sublist (summary_line name' key' (length js) m # skipped_lines name' ?s) pr"
      unfolding p by (rule sublist_append_rightI)
    with True j o show ?thesis by auto
  next
    case False
    with Cons.prems(2) have "(name, key) \<in> set mp" unfolding x by auto
    from Cons.IH [OF r this] obtain js' m'
      where 1: "js_questions_of (case cats name of Some qs \<Rightarrow> qs | None \<Rightarrow> []) = Inr (js', m')"
        and 2: "(key, js') \<in> set obj1"
        and 3: "sublist (summary_line name key (length js') m'
                 # skipped_lines name (case skc name of Some sk \<Rightarrow> sk | None \<Rightarrow> [])) pr1"
      by blast
    from 3 have "sublist (summary_line name key (length js') m'
                 # skipped_lines name (case skc name of Some sk \<Rightarrow> sk | None \<Rightarrow> [])) pr"
    proof -
      from 3 obtain ps ss where "pr1 = ps @ (summary_line name key (length js') m'
                 # skipped_lines name (case skc name of Some sk \<Rightarrow> sk | None \<Rightarrow> [])) @ ss"
        unfolding sublist_def by blast
      then have "pr = ((summary_line name' key' (length js) m # skipped_lines name' ?s) @ ps) @
            (summary_line name key (length js') m'
                 # skipped_lines name (case skc name of Some sk \<Rightarrow> sk | None \<Rightarrow> [])) @ ss"
        unfolding p by simp
      then show ?thesis unfolding sublist_def by blast
    qed
    with 1 2 o show ?thesis by auto
  qed
qed

lemma build_js_cong:
  "list_all (\<lambda>(name, key). cats name = cats' name \<and> skc name = skc' name) mp \<Longrightarrow>
   build_js mp cats skc = build_js mp cats' skc'"
proof (induction mp)
  case Nil
  show ?case by simp
next
  case (Cons x mp)
  obtain name key where x: "x = (name, key)" by (cases x)
  from Cons.prems have e: "cats name = cats' name" "skc name = skc' name"
    and l: "list_all (\<lambda>(name, key). cats name = cats' name \<and> skc name = skc' name) mp"
    unfolding x by simp_all
  note ih = Cons.IH [OF l]
  show ?case
    unfolding x build_js.simps e ih ..
qed

lemma mapping_keys_distinct: "distinct (map snd mapping)"
  by (simp add: mapping_def U_def)

section \<open>The filter\<close>


lemma js_questions_of_skip:
  "q_correct_letters q = [] \<Longrightarrow>
   js_questions_of (q # qlist) =
     (case js_questions_of qlist of
        Inl e \<Rightarrow> Inl e
      | Inr (js, missing) \<Rightarrow> Inr (js, Suc missing))"
  by simp




lemma js_questions_of_split:
  "js_questions_of (xs @ ys) = Inr (js, m) \<Longrightarrow>
   \<exists>js0 m0 js1 m1. js_questions_of xs = Inr (js0, m0) \<and> js_questions_of ys = Inr (js1, m1)
      \<and> js = js0 @ js1 \<and> m = m0 + m1"
proof (induction xs arbitrary: js m)
  case Nil
  then show ?case by simp
next
  case (Cons q xs)
  show ?case
  proof (cases "q_correct_letters q = []")
    case True
    with Cons.prems obtain m' where r: "js_questions_of (xs @ ys) = Inr (js, m')" and m: "m = Suc m'"
      by (auto split: sum.splits)
    from Cons.IH [OF r] True m show ?thesis by auto
  next
    case False
    with Cons.prems obtain indices js' where i: "indices_of (q_correct_letters q) = Inr indices"
      and r: "js_questions_of (xs @ ys) = Inr (js', m)"
      and j: "js = \<lparr>js_id = q_num q, js_question = q_question q, js_options = map snd (q_options q),
                   js_correct = correct_of indices\<rparr> # js'"
      by (auto simp: Let_def split: sum.splits)
    from Cons.IH [OF r] False i j show ?thesis by (auto simp: Let_def)
  qed
qed

lemma js_questions_of_join:
  "js_questions_of xs = Inr (js0, m0) \<Longrightarrow> js_questions_of ys = Inr (js1, m1) \<Longrightarrow>
   js_questions_of (xs @ ys) = Inr (js0 @ js1, m0 + m1)"
proof (induction xs arbitrary: js0 m0)
  case Nil
  then show ?case by simp
next
  case (Cons q xs)
  show ?case
  proof (cases "q_correct_letters q = []")
    case True
    with Cons.prems(1) obtain m' where r: "js_questions_of xs = Inr (js0, m')" and m: "m0 = Suc m'"
      by (auto split: sum.splits)
    from Cons.IH [OF r Cons.prems(2)] True m show ?thesis by simp
  next
    case False
    with Cons.prems(1) obtain indices js' where i: "indices_of (q_correct_letters q) = Inr indices"
      and r: "js_questions_of xs = Inr (js', m0)"
      and j: "js0 = \<lparr>js_id = q_num q, js_question = q_question q, js_options = map snd (q_options q),
                   js_correct = correct_of indices\<rparr> # js'"
      by (auto simp: Let_def split: sum.splits)
    from Cons.IH [OF r Cons.prems(2)] False i j show ?thesis by (simp add: Let_def)
  qed
qed

text \<open>The definitions a concrete run unfolds.\<close>

lemmas eval_defs = U_def isspace_def decimal_zeros_def decimal_value_def isdecimal_def int_of_digits_def
  int_py_def str_int_def strip_def blank_def nonblank_def startswith_def lower_cp_def lower_def linebreak_def
  splitlines_def alternatives_def chr_def chr_ci_def lits_def lits_ci_def dot_def upper_AZ_def
  QUESTION_RE_def CORRECT_RE_def OPTION_RE_def question_num_def option_match_def letters_of_def
  correct_match_def is_options_line_def warn_no_options_def question_block_def continued_def
  parse_category_def
  is_category_line_def cat_indices_def segments_def category_name_def mapping_def ord_py_def
  correct_of_def summary_line_def skipped_lines_def main_lines_def main_text_def
  List.map_filter_def Let_def

section \<open>The last block of a category name\<close>

lemma last_segment_run:
  assumes h: "is_category_line h" and body: "list_all (\<lambda>l. \<not> is_category_line l) body"
    and post: "post = [] \<or> is_category_line (hd post)"
    and last: "list_all (\<lambda>l. is_category_line l \<longrightarrow> category_name l \<noteq> category_name h) post"
    and key: "(category_name h, key) \<in> set mapping"
    and run: "main_lines (pre @ h # body @ post) = (printed, Inr obj)"
  shows "\<exists>w qs sk js m.
           parse_category body (category_name h) = (w, Inr (qs, sk))
         \<and> js_questions_of qs = Inr (js, m)
         \<and> map_of obj key = Some js
         \<and> sublist (summary_line (category_name h) key (length js) m
                     # skipped_lines (category_name h) sk) printed"
proof -
  let ?name = "category_name h"
  have seg: "segments (pre @ h # body @ post) = segments pre @ (h, body) # segments post"
    using h body post by (rule segments_block)
  have other: "list_all (\<lambda>(h', b'). category_name h' \<noteq> ?name) (segments post)"
    using last segments_headers [of _ _ post] by (auto simp: list_all_iff)
  from run obtain pr1 cats skc pr2
    where ld: "load_categories (segments (pre @ h # body @ post)) (Map.empty, Map.empty) =
                 (pr1, Inr (cats, skc))"
      and bj: "build_js mapping cats skc = (pr2, Inr obj)"
      and pr: "printed = pr1 @ pr2"
    by (auto simp: main_lines_def split: prod.splits sum.splits)
  from load_categories_last [OF ld [unfolded seg] other] obtain w qs sk
    where p: "parse_category body ?name = (w, Inr (qs, sk))"
      and c: "cats ?name = Some qs" and s: "skc ?name = Some sk"
    by blast
  from build_js_entry [OF bj key] c s obtain js m
    where j: "js_questions_of qs = Inr (js, m)" and o: "(key, js) \<in> set obj"
      and l: "sublist (summary_line ?name key (length js) m # skipped_lines ?name sk) pr2"
    by auto
  have "distinct (map fst obj)"
    using build_js_keys [OF bj] mapping_keys_distinct by simp
  with o have mo: "map_of obj key = Some js" by simp
  from l obtain ps ss where "pr2 = ps @ (summary_line ?name key (length js) m # skipped_lines ?name sk) @ ss"
    unfolding sublist_def by blast
  then have "printed = (pr1 @ ps) @ (summary_line ?name key (length js) m # skipped_lines ?name sk) @ ss"
    unfolding pr by simp
  then have "sublist (summary_line ?name key (length js) m # skipped_lines ?name sk) printed"
    unfolding sublist_def by blast
  with p j mo show ?thesis by blast
qed

lemma block_in_segment:
  assumes h: "is_category_line h" and body: "list_all (\<lambda>l. \<not> is_category_line l) body"
    and post: "post = [] \<or> is_category_line (hd post)"
    and last: "list_all (\<lambda>l. is_category_line l \<longrightarrow> category_name l \<noteq> category_name h) post"
    and key: "(category_name h, key) \<in> set mapping"
    and run: "main_lines (pre @ h # body @ post) = (printed, Inr obj)"
    and at: "hdr # ls \<in> set (loop_states (category_name h) body)"
    and hdr: "question_num hdr = Some (Inr n)"
    and blk: "question_block (category_name h) n ls = (prq, [q], skq, rest)"
  shows "\<exists>w out0 out1 sk0 sk1 js0 m0 js1 m1.
           parse_category body (category_name h) = (w, Inr (out0 @ q # out1, sk0 @ skq @ sk1))
         \<and> js_questions_of out0 = Inr (js0, m0)
         \<and> js_questions_of (q # out1) = Inr (js1, m1)
         \<and> map_of obj key = Some (js0 @ js1)
         \<and> sublist (summary_line (category_name h) key (length (js0 @ js1)) (m0 + m1)
                     # skipped_lines (category_name h) (sk0 @ skq @ sk1)) printed"
proof -
  let ?name = "category_name h"
  from last_segment_run [OF h body post last key run] obtain w qs sk js m
    where p: "parse_category body ?name = (w, Inr (qs, sk))"
      and j: "js_questions_of qs = Inr (js, m)"
      and mo: "map_of obj key = Some js"
      and l: "sublist (summary_line ?name key (length js) m # skipped_lines ?name sk) printed"
    by blast
  from loop_state_result [OF at] obtain pr0 out0 sk0
    where d: "parse_lines ?name body = continued pr0 out0 sk0 (parse_lines ?name (hdr # ls))"
    by blast
  have "parse_lines ?name (hdr # ls) = continued prq [q] skq (parse_lines ?name rest)"
    using hdr blk by (rule parse_lines_header)
  with d have "parse_lines ?name body =
      continued (pr0 @ prq) (out0 @ [q]) (sk0 @ skq) (parse_lines ?name rest)"
    by (simp add: continued_continued)
  with p obtain w1 out1 sk1 where q: "qs = out0 @ q # out1" and s: "sk = sk0 @ skq @ sk1"
    by (cases "parse_lines ?name rest")
      (auto simp: parse_category_def continued_def split: sum.splits)
  from js_questions_of_split [of out0 "q # out1" js m] j q obtain js0 m0 js1 m1
    where "js_questions_of out0 = Inr (js0, m0)" "js_questions_of (q # out1) = Inr (js1, m1)"
      "js = js0 @ js1" "m = m0 + m1"
    by auto
  with p mo l q s show ?thesis by blast
qed

section \<open>Blocks without an Options line\<close>



section \<open>Answer letters and indices\<close>



section \<open>Answers in and out of range\<close>





section \<open>Two runs\<close>

lemma roundtrip_run:
  "snd (main_text roundtrip_input) =
     Inr [(U ''csa'',
           [\<lparr>js_id = 1, js_question = U ''What is 2+2?'',
             js_options = [U ''3'', U ''4'', U ''5''], js_correct = Single 1\<rparr>]),
          (U ''skillcert'', []), (U ''youtube'', []), (U ''other'', [])]"
  by (simp add: roundtrip_input_def eval_defs)

text \<open>
  Claim C2, as stated: the output of the round-trip input would have the key
  \<^verbatim>\<open>csa\<close> and no other.  It has not: the second loop of \<^verbatim>\<open>main\<close> sets every key of
  \<^verbatim>\<open>mapping\<close>.
\<close>

theorem roundtrip_output_not_csa_alone:
  "snd (main_text roundtrip_input) \<noteq>
     Inr [(U ''csa'',
           [\<lparr>js_id = 1, js_question = U ''What is 2+2?'',
             js_options = [U ''3'', U ''4'', U ''5''], js_correct = Single 1\<rparr>])]"
  by (simp add: roundtrip_run)

text \<open>
  Claim C2, amended.  On the round-trip input the run prints the four summary lines
  and hands \<^verbatim>\<open>json.dump\<close> the object with the four keys of \<^verbatim>\<open>mapping\<close> in their
  order: \<^verbatim>\<open>csa\<close> with the one record of the claim, and \<^verbatim>\<open>skillcert\<close>,
  \<^verbatim>\<open>youtube\<close> and \<^verbatim>\<open>other\<close> with empty lists.
\<close>

theorem roundtrip_output:
  "main_text roundtrip_input =
     ([U ''CSA EXAM QUESTIONS -> key '' @ [39] @ U ''csa'' @ [39] @
         U '': 1 included, 0 skipped (missing/invalid Correct Answer)'',
       U ''SKILLCERT QUESTIONS -> key '' @ [39] @ U ''skillcert'' @ [39] @
         U '': 0 included, 0 skipped (missing/invalid Correct Answer)'',
       U ''YOUTUBE DUMPS -> key '' @ [39] @ U ''youtube'' @ [39] @
         U '': 0 included, 0 skipped (missing/invalid Correct Answer)'',
       U ''OTHER SOURCES 1 QUESTIONS -> key '' @ [39] @ U ''other'' @ [39] @
         U '': 0 included, 0 skipped (missing/invalid Correct Answer)''],
      Inr [(U ''csa'',
           [\<lparr>js_id = 1, js_question = U ''What is 2+2?'',
             js_options = [U ''3'', U ''4'', U ''5''], js_correct = Single 1\<rparr>]),
          (U ''skillcert'', []), (U ''youtube'', []), (U ''other'', [])])"
  by (simp add: roundtrip_input_def eval_defs)

text \<open>
  Claim C3.  An answer line that matches \<^verbatim>\<open>CORRECT_RE\<close> and names \<^verbatim>\<open>AB\<close> gives the
  question the one letter \<^verbatim>\<open>AB\<close>; \<^verbatim>\<open>ord\<close> refuses it, and the run ends with
  \<^verbatim>\<open>TypeError\<close> instead of an output object.
\<close>

theorem two_letter_answer_aborts:
  "snd (main_text two_letter_input) = Inl TypeError"
  by (simp add: two_letter_input_def eval_defs)

end
